theory Spec2Isabelle
  imports Complex_Main
begin

section \<open>AuctionIO: the client queue, the coefficient and the tick\<close>

text \<open>
  A shallow embedding of \<^verbatim>\<open>src/AuctionIO-object.py\<close>. The widgets of the window are
  left out; what remains of class \<^verbatim>\<open>AuctionIO\<close> is its five attributes and the methods
  \<^verbatim>\<open>insert_new_client\<close>, \<^verbatim>\<open>step_proc_pb\<close>, \<^verbatim>\<open>change_clock_tick\<close> and \<^verbatim>\<open>update\<close>.

  Python's \<^verbatim>\<open>int\<close> is \<^typ>\<open>int\<close>. Python's \<^verbatim>\<open>float\<close> is idealised as \<^typ>\<open>real\<close>:
  rounding is not modelled, so every statement about a coefficient below is a statement
  about the exact value of the formula. Nor is the range of a double: for integers beyond
  it the source raises \<^verbatim>\<open>OverflowError\<close> (an int too large for a float) or lets a quotient
  underflow to 0.0, which \<^verbatim>\<open>math.log\<close> then refuses. A statement that says which inputs
  raise which exception is therefore made for integers inside that range only. The
  exceptions that the modelled statements raise inside it are the values of \<open>py_error\<close>.
\<close>

subsection \<open>Python's arithmetic and list primitives\<close>

datatype py_error = ZeroDivisionError | ValueError | IndexError

text \<open>\<^verbatim>\<open>a / b\<close> on two ints: true division, \<^verbatim>\<open>ZeroDivisionError\<close> for a zero divisor.\<close>

definition truediv :: "int \<Rightarrow> int \<Rightarrow> py_error + real" where
  "truediv a b = (if b = 0 then Inl ZeroDivisionError else Inr (real_of_int a / real_of_int b))"

text \<open>
  \<^verbatim>\<open>math.log(x, base)\<close>: the quotient of the two natural logarithms; a math domain error
  (\<^verbatim>\<open>ValueError\<close>) for an argument or a base that is not positive, and a division by zero
  for base 1. HOL's \<^term>\<open>ln\<close> is total (\<^term>\<open>ln 0 = (0::real)\<close>), so the domain is checked here.
\<close>

definition math_log :: "real \<Rightarrow> real \<Rightarrow> py_error + real" where
  "math_log x b =
     (if x \<le> 0 then Inl ValueError
      else if b \<le> 0 then Inl ValueError
      else if ln b = 0 then Inl ZeroDivisionError
      else Inr (ln x / ln b))"

text \<open>\<^verbatim>\<open>xs[0]\<close>: \<^verbatim>\<open>IndexError\<close> on the empty list.\<close>

definition first :: "'a list \<Rightarrow> py_error + 'a" where
  "first xs = (case xs of [] \<Rightarrow> Inl IndexError | x # _ \<Rightarrow> Inr x)"

text \<open>\<^verbatim>\<open>max(xs)\<close>: \<^verbatim>\<open>ValueError\<close> on the empty list; an item replaces the running maximum
  only when it is strictly greater, so the first of several equal maxima is kept.\<close>

definition py_max :: "real list \<Rightarrow> py_error + real" where
  "py_max xs =
     (case xs of [] \<Rightarrow> Inl ValueError
      | x # ys \<Rightarrow> Inr (fold (\<lambda>y m. if m < y then y else m) ys x))"

text \<open>\<^verbatim>\<open>xs.index(x)\<close>: the position of the first item equal to \<open>x\<close>, \<^verbatim>\<open>ValueError\<close>
  when there is none.\<close>

fun list_index :: "'a \<Rightarrow> 'a list \<Rightarrow> py_error + nat" where
  "list_index x [] = Inl ValueError"
| "list_index x (y # ys) =
     (if y = x then Inr 0
      else case list_index x ys of Inl e \<Rightarrow> Inl e | Inr i \<Rightarrow> Inr (Suc i))"

subsection \<open>The state of the application\<close>

text \<open>An entry of \<^verbatim>\<open>clients_list\<close> is the Python list \<^verbatim>\<open>[id, files, time, coefficient]\<close>
  (the columns "Id", "File_size", "Time", "Coefficient" of the table).\<close>

record client =
  client_id :: int
  files :: "int list"
  time :: int
  coefficient :: real

text \<open>
  The attributes of \<^verbatim>\<open>AuctionIO\<close>. \<^verbatim>\<open>self.id\<close> is \<open>next_id\<close>. Of an entry of
  \<^verbatim>\<open>status_list\<close> only the third component, the activity flag of the host, is kept.
  \<open>threads\<close> is the log of the calls \<^verbatim>\<open>Thread(...).start()\<close>: for each of them the value
  that the loop variable \<^verbatim>\<open>i\<close> of \<^verbatim>\<open>update\<close> has at the call, which is the position of
  the host found idle, and \<^verbatim>\<open>max_coefficient[0]\<close>, the id of the selected client. These are
  not yet the arguments of the worker: see \<open>lambda_status_index\<close> below.
\<close>

record auction =
  num_clients :: int
  next_id :: int
  clock_tick :: int
  clients_list :: "client list"
  status_list :: "bool list"
  threads :: "(nat \<times> int) list"

text \<open>The attributes after \<^verbatim>\<open>__init__\<close>, before its call of \<^verbatim>\<open>update\<close>.\<close>

definition init :: auction where
  "init = \<lparr>num_clients = 0, next_id = 1, clock_tick = 1000, clients_list = [],
           status_list = replicate 5 False, threads = []\<rparr>"

subsection \<open>The coefficient\<close>

text \<open>
  The expression of lines 163 and 223-224,
  \<^verbatim>\<open>((1 / self.num_clients) * t) + (math.log((files[0] / self.num_clients), 1 / 2))\<close>,
  evaluated left to right: \<open>n\<close> is \<^verbatim>\<open>self.num_clients\<close>, \<open>t\<close> the time and \<open>fs\<close> the
  client's list of files.
\<close>

definition new_coefficient :: "int \<Rightarrow> int \<Rightarrow> int list \<Rightarrow> py_error + real" where
  "new_coefficient n t fs =
     (case truediv 1 n of Inl e \<Rightarrow> Inl e | Inr q \<Rightarrow>
      (case first fs of Inl e \<Rightarrow> Inl e | Inr v \<Rightarrow>
       (case truediv v n of Inl e \<Rightarrow> Inl e | Inr r \<Rightarrow>
        (case truediv 1 2 of Inl e \<Rightarrow> Inl e | Inr b \<Rightarrow>
         (case math_log r b of Inl e \<Rightarrow> Inl e | Inr l \<Rightarrow>
            Inr (q * real_of_int t + l))))))"

subsection \<open>\<^verbatim>\<open>insert_new_client\<close>\<close>

text \<open>
  The random source is a parameter: \<open>k\<close> is the value of \<^verbatim>\<open>random.randint(2, 11)\<close> and
  \<open>file_size i\<close> the value of \<^verbatim>\<open>random.randint(1, 1000)\<close> in the iteration where the loop
  variable of \<^verbatim>\<open>range(1, k)\<close> is \<open>i\<close>.
\<close>

definition insert_new_client :: "int \<Rightarrow> (int \<Rightarrow> int) \<Rightarrow> auction \<Rightarrow> py_error + auction" where
  "insert_new_client k file_size st =
     (let n = num_clients st + 1;
          fs = sort (map file_size [1..k - 1])
      in case new_coefficient n 0 fs of
           Inl e \<Rightarrow> Inl e
         | Inr x \<Rightarrow>
             Inr (st\<lparr>num_clients := n,
                     clients_list := clients_list st @
                       [\<lparr>client_id = next_id st, files = fs, time = 0, coefficient = x\<rparr>],
                     next_id := next_id st + 1\<rparr>))"

text \<open>What \<^verbatim>\<open>random.randint\<close> promises for the calls that are made.\<close>

definition randint_ok :: "int \<Rightarrow> (int \<Rightarrow> int) \<Rightarrow> bool" where
  "randint_ok k file_size =
     (2 \<le> k \<and> k \<le> 11 \<and> (\<forall>i \<in> set [1..k - 1]. 1 \<le> file_size i \<and> file_size i \<le> 1000))"

subsection \<open>\<^verbatim>\<open>step_proc_pb\<close> and \<^verbatim>\<open>change_clock_tick\<close>\<close>

text \<open>
  A worker writes the state twice: the flag at \<^verbatim>\<open>status_index\<close> is set in its first
  statement (line 186) and cleared in its last one (line 196), after the 100 steps of the
  progress bar. The two writes are separate transitions; when they happen relative to the
  ticks is up to the thread scheduler. \<^verbatim>\<open>update\<close> itself never writes a flag.
\<close>

definition step_proc_pb_begin :: "nat \<Rightarrow> auction \<Rightarrow> py_error + auction" where
  "step_proc_pb_begin status_index st =
     (if status_index < length (status_list st)
      then Inr (st\<lparr>status_list := (status_list st)[status_index := True]\<rparr>)
      else Inl IndexError)"

definition step_proc_pb_end :: "nat \<Rightarrow> auction \<Rightarrow> py_error + auction" where
  "step_proc_pb_end status_index st =
     (if status_index < length (status_list st)
      then Inr (st\<lparr>status_list := (status_list st)[status_index := False]\<rparr>)
      else Inl IndexError)"

definition change_clock_tick :: "int \<Rightarrow> auction \<Rightarrow> auction" where
  "change_clock_tick component st =
     (let t = clock_tick st + component
      in st\<lparr>clock_tick := (if t \<le> 100 then 100 else t)\<rparr>)"

subsection \<open>\<^verbatim>\<open>update\<close>\<close>

text \<open>Lines 221-225: every entry gets its time raised by one and a new coefficient; the
  first entry whose coefficient raises ends the loop.\<close>

fun refresh :: "int \<Rightarrow> client list \<Rightarrow> py_error + client list" where
  "refresh n [] = Inr []"
| "refresh n (c # cs) =
     (case new_coefficient n (time c + 1) (files c) of
        Inl e \<Rightarrow> Inl e
      | Inr x \<Rightarrow>
          (case refresh n cs of
             Inl e \<Rightarrow> Inl e
           | Inr cs' \<Rightarrow> Inr (c\<lparr>time := time c + 1, coefficient := x\<rparr> # cs')))"

text \<open>Lines 228-231: \<open>None\<close> stands for the initial \<^verbatim>\<open>max_coefficient = 0\<close>; \<open>Some k\<close>
  says that \<^verbatim>\<open>max_coefficient\<close> is bound to the entry at position \<open>k\<close>.\<close>

definition max_coefficient :: "client list \<Rightarrow> py_error + nat option" where
  "max_coefficient cs =
     (if cs = [] then Inr None
      else case py_max (map coefficient cs) of
             Inl e \<Rightarrow> Inl e
           | Inr m \<Rightarrow>
               (case list_index m (map coefficient cs) of
                  Inl e \<Rightarrow> Inl e
                | Inr k \<Rightarrow> Inr (Some k)))"

text \<open>Lines 235-236: the first position of \<^verbatim>\<open>status_list\<close> whose flag is \<^verbatim>\<open>False\<close>.\<close>

fun idle_host :: "bool list \<Rightarrow> nat option" where
  "idle_host [] = None"
| "idle_host (b # bs) = (if \<not> b then Some 0 else map_option Suc (idle_host bs))"

text \<open>
  Lines 241-246. \<^verbatim>\<open>max_coefficient\<close> is the entry at position \<open>k\<close> itself, not a copy: to
  delete its first file changes what the later calls of \<^verbatim>\<open>index\<close> look for, which is why
  they look for \<open>cs1 ! k\<close>. \<^verbatim>\<open>index\<close> compares entries by value.
\<close>

definition consume :: "nat \<Rightarrow> auction \<Rightarrow> py_error + auction" where
  "consume k st =
     (let cs = clients_list st
      in case list_index (cs ! k) cs of
           Inl e \<Rightarrow> Inl e
         | Inr j \<Rightarrow>
             (case files (cs ! j) of
                [] \<Rightarrow> Inl IndexError
              | f # fs \<Rightarrow>
                  (let cs1 = cs[j := (cs ! j)\<lparr>files := fs\<rparr>]
                   in case list_index (cs1 ! k) cs1 of
                        Inl e \<Rightarrow> Inl e
                      | Inr j2 \<Rightarrow>
                          if length (files (cs1 ! j2)) = 0
                          then Inr (st\<lparr>num_clients := num_clients st - 1,
                                       clients_list := take j2 cs1 @ drop (Suc j2) cs1\<rparr>)
                          else Inr (st\<lparr>clients_list := cs1\<rparr>))))"

definition update :: "auction \<Rightarrow> py_error + auction" where
  "update st =
     (case refresh (num_clients st) (clients_list st) of
        Inl e \<Rightarrow> Inl e
      | Inr cs \<Rightarrow>
          (let st1 = st\<lparr>clients_list := cs\<rparr>
           in case max_coefficient cs of
                Inl e \<Rightarrow> Inl e
              | Inr None \<Rightarrow> Inr st1
              | Inr (Some k) \<Rightarrow>
                  (case idle_host (status_list st1) of
                     None \<Rightarrow> Inr st1
                   | Some i \<Rightarrow>
                       consume k (st1\<lparr>threads := threads st1 @ [(i, client_id (cs ! k))]\<rparr>))))"

text \<open>
  Lines 238-240 and 252. The target of the thread is a lambda, so the arguments of
  \<^verbatim>\<open>step_proc_pb\<close> are evaluated in the worker thread, when it gets to run, and not at
  \<^verbatim>\<open>Thread(...).start()\<close>. The variable \<^verbatim>\<open>i\<close> that the lambda reads is the variable of this
  call of \<^verbatim>\<open>update\<close>, and the loop that fills the table (line 252) binds it again, to
  every position of the queue as the tick leaves it. These are the values, in this order,
  that the variable has from the start of the thread on, for \<open>i\<close> the host found idle
  and \<open>st'\<close> the state after the tick; the last one stays. Which of them the worker
  finds as its \<^verbatim>\<open>status_index\<close> is up to the thread scheduler.
\<close>

definition lambda_status_index :: "nat \<Rightarrow> auction \<Rightarrow> nat list" where
  "lambda_status_index i st' = i # [0..<length (clients_list st')]"

subsection \<open>Runs\<close>

text \<open>
  What happens to the state after \<^verbatim>\<open>__init__\<close>: the button "Generate client", a tick of
  \<^verbatim>\<open>update\<close>, the two buttons that change the clock, and the two writes of a worker. The
  callbacks run one after the other in the main loop of the window. The writes of the
  workers are allowed at any moment and for any position of \<^verbatim>\<open>status_list\<close>, which covers
  every schedule of the threads and every value a worker can find as its
  \<^verbatim>\<open>status_index\<close>.
\<close>

datatype event =
  Generate_client int "int \<Rightarrow> int"
| Tick
| Change_clock_tick int
| Worker_begin nat
| Worker_end nat

fun step :: "event \<Rightarrow> auction \<Rightarrow> py_error + auction" where
  "step (Generate_client k file_size) st = insert_new_client k file_size st"
| "step Tick st = update st"
| "step (Change_clock_tick d) st = Inr (change_clock_tick d st)"
| "step (Worker_begin i) st = step_proc_pb_begin i st"
| "step (Worker_end i) st = step_proc_pb_end i st"

fun run :: "event list \<Rightarrow> auction \<Rightarrow> py_error + auction" where
  "run [] st = Inr st"
| "run (e # es) st = (case step e st of Inl err \<Rightarrow> Inl err | Inr st' \<Rightarrow> run es st')"

subsection \<open>The invariant of the queue\<close>

text \<open>
  What holds of every entry of the queue between two callbacks: its id has been handed
  out already, it has a file left, and its files are positive and in ascending order.
\<close>

definition entry_ok :: "int \<Rightarrow> client \<Rightarrow> bool" where
  "entry_ok nid c =
     (client_id c < nid \<and> files c \<noteq> [] \<and> sorted (files c) \<and> (\<forall>f \<in> set (files c). 0 < f))"

text \<open>The counter agrees with the queue, and the entries stand in the order of their ids.\<close>

definition queue_inv :: "auction \<Rightarrow> bool" where
  "queue_inv st =
     (num_clients st = int (length (clients_list st)) \<and>
      sorted_wrt (<) (map client_id (clients_list st)) \<and>
      (\<forall>c \<in> set (clients_list st). entry_ok (next_id st) c))"

subsection \<open>Two states of a short run\<close>

text \<open>The queue after one client with the single file 5 has been generated, and the
  state after the tick that follows.\<close>

abbreviation one_client :: auction where
  "one_client \<equiv>
     \<lparr>num_clients = 1, next_id = 2, clock_tick = 1000,
      clients_list = [\<lparr>client_id = 1, files = [5], time = 0, coefficient = log (1 / 2) 5\<rparr>],
      status_list = [False, False, False, False, False], threads = []\<rparr>"

abbreviation served_out :: auction where
  "served_out \<equiv>
     \<lparr>num_clients = 0, next_id = 2, clock_tick = 1000, clients_list = [],
      status_list = [False, False, False, False, False], threads = [(0, 1)]\<rparr>"

text \<open>The queue after one client with the files 8 and 9 has been generated, and the
  state after the tick that follows.\<close>

abbreviation two_files :: auction where
  "two_files \<equiv>
     \<lparr>num_clients = 1, next_id = 2, clock_tick = 1000,
      clients_list = [\<lparr>client_id = 1, files = [8, 9], time = 0, coefficient = log (1 / 2) 8\<rparr>],
      status_list = [False, False, False, False, False], threads = []\<rparr>"

abbreviation one_file_left :: auction where
  "one_file_left \<equiv>
     \<lparr>num_clients = 1, next_id = 2, clock_tick = 1000,
      clients_list = [\<lparr>client_id = 1, files = [9], time = 1, coefficient = 1 + log (1 / 2) 8\<rparr>],
      status_list = [False, False, False, False, False], threads = [(0, 1)]\<rparr>"

text \<open>Two clients with the same single file, whose coefficients are equal after the next
  refresh.\<close>

abbreviation tie :: auction where
  "tie \<equiv>
     \<lparr>num_clients = 2, next_id = 3, clock_tick = 1000,
      clients_list = [\<lparr>client_id = 1, files = [5], time = 0, coefficient = log (1 / 2) 5\<rparr>,
                      \<lparr>client_id = 2, files = [5], time = 0, coefficient = log (1 / 2) (5 / 2)\<rparr>],
      status_list = [False, False, False, False, False], threads = []\<rparr>"

abbreviation tie_refreshed :: "client list" where
  "tie_refreshed \<equiv>
     [\<lparr>client_id = 1, files = [5], time = 1, coefficient = 1 / 2 + log (1 / 2) (5 / 2)\<rparr>,
      \<lparr>client_id = 2, files = [5], time = 1, coefficient = 1 / 2 + log (1 / 2) (5 / 2)\<rparr>]"

text \<open>The state after two clients have been generated and two ticks have passed while no
  worker has run yet; and the state after four ticks for one client with five files,
  where the workers of the first three ticks have set the flags of the hosts 0, 1 and 2
  and the worker of the fourth has not run yet.\<close>

abbreviation host_0_twice :: auction where
  "host_0_twice \<equiv>
     \<lparr>num_clients = 0, next_id = 3, clock_tick = 1000, clients_list = [],
      status_list = [False, False, False, False, False], threads = [(0, 1), (0, 2)]\<rparr>"

abbreviation late_state :: auction where
  "late_state \<equiv>
     \<lparr>num_clients = 1, next_id = 2, clock_tick = 1000,
      clients_list = [\<lparr>client_id = 1, files = [9], time = 4, coefficient = 4 + log (1 / 2) 8\<rparr>],
      status_list = [True, True, True, False, False],
      threads = [(0, 1), (1, 1), (2, 1), (3, 1)]\<rparr>"

section \<open>Properties\<close>

subsection \<open>The primitives\<close>

lemma new_coefficient_eq:
  "new_coefficient n t fs =
     (if n = 0 then Inl ZeroDivisionError
      else case fs of [] \<Rightarrow> Inl IndexError
           | v # _ \<Rightarrow>
               if real_of_int v / real_of_int n \<le> 0 then Inl ValueError
               else Inr (1 / real_of_int n * real_of_int t
                         + log (1 / 2) (real_of_int v / real_of_int n)))"
  by (simp add: new_coefficient_def truediv_def first_def math_log_def log_def
      split: list.split)

lemma refresh_Inr:
  "refresh n cs = Inr cs' \<Longrightarrow>
     cs' = map (\<lambda>c. c\<lparr>time := time c + 1,
                        coefficient := 1 / real_of_int n * real_of_int (time c + 1)
                          + log (1 / 2) (real_of_int (hd (files c)) / real_of_int n)\<rparr>) cs"
proof (induction cs arbitrary: cs')
  case Nil
  then show ?case by simp
next
  case (Cons c cs)
  then show ?case
    by (auto simp: new_coefficient_eq split: sum.splits if_splits list.splits)
qed

lemma refresh_ok:
  "0 < n \<Longrightarrow> \<forall>c \<in> set cs. files c \<noteq> [] \<and> 0 < hd (files c) \<Longrightarrow> \<exists>cs'. refresh n cs = Inr cs'"
proof (induction cs)
  case Nil
  then show ?case by simp
next
  case (Cons c cs)
  then obtain cs' where "refresh n cs = Inr cs'" by auto
  moreover obtain v vs where "files c = v # vs" "0 < v"
    using Cons.prems by (cases "files c") auto
  ultimately show ?case using Cons.prems(1)
    by (simp add: new_coefficient_eq not_le)
qed

lemma fold_keeps_max:
  "fold (\<lambda>y m. if m < y then y else m) ys (x::real) \<in> set (x # ys) \<and>
   (\<forall>y \<in> set (x # ys). y \<le> fold (\<lambda>y m. if m < y then y else m) ys x)"
proof (induction ys arbitrary: x)
  case Nil
  then show ?case by simp
next
  case (Cons y ys)
  from Cons.IH[of "if x < y then y else x"] show ?case
    by (auto split: if_splits)
qed

lemma list_index_Inr_iff:
  "list_index x xs = Inr k \<longleftrightarrow> k < length xs \<and> xs ! k = x \<and> (\<forall>j<k. xs ! j \<noteq> x)"
proof (induction xs arbitrary: k)
  case Nil
  then show ?case by simp
next
  case (Cons y ys)
  show ?case
  proof (cases "y = x")
    case True
    then show ?thesis by (cases k) auto
  next
    case False
    show ?thesis
    proof (cases k)
      case 0
      with False show ?thesis by (auto split: sum.splits)
    next
      case (Suc k')
      have "(\<forall>j<Suc k'. (y # ys) ! j \<noteq> x) \<longleftrightarrow> (\<forall>j<k'. ys ! j \<noteq> x)"
        using False by (auto simp: less_Suc_eq_0_disj)
      with False Suc Cons.IH[of k'] show ?thesis
        by (auto split: sum.splits)
    qed
  qed
qed

lemma list_index_mem: "x \<in> set xs \<Longrightarrow> \<exists>k. list_index x xs = Inr k"
  by (induction xs) (auto split: sum.splits)

lemma max_coefficient_Some:
  assumes "cs \<noteq> []"
  shows "\<exists>k. max_coefficient cs = Inr (Some k) \<and> k < length cs \<and>
           (\<forall>j<length cs. coefficient (cs ! j) \<le> coefficient (cs ! k)) \<and>
           (\<forall>j<k. coefficient (cs ! j) < coefficient (cs ! k))"
proof -
  obtain c cs0 where cs: "cs = c # cs0" using assms by (cases cs) auto
  define xs where "xs = map coefficient cs"
  define m where "m = fold (\<lambda>y m. if m < y then y else m) (map coefficient cs0) (coefficient c)"
  have pm: "py_max xs = Inr m" by (simp add: py_max_def xs_def cs m_def)
  have m_in: "m \<in> set xs" and m_ge: "\<forall>y \<in> set xs. y \<le> m"
    using fold_keeps_max[of "map coefficient cs0" "coefficient c"]
    unfolding m_def xs_def cs by auto
  from list_index_mem[OF m_in] obtain k where k: "list_index m xs = Inr k" by blast
  then have kl: "k < length xs" and km: "xs ! k = m" and kf: "\<forall>j<k. xs ! j \<noteq> m"
    by (simp_all add: list_index_Inr_iff)
  have "max_coefficient cs = Inr (Some k)"
    using assms pm k by (simp add: max_coefficient_def xs_def)
  moreover have "k < length cs" using kl by (simp add: xs_def)
  moreover have "\<forall>j<length cs. coefficient (cs ! j) \<le> coefficient (cs ! k)"
    using m_ge km kl by (auto simp: xs_def)
  moreover have "\<forall>j<k. coefficient (cs ! j) < coefficient (cs ! k)"
  proof (intro allI impI)
    fix j assume "j < k"
    then have "xs ! j \<noteq> m" "xs ! j \<le> m" using kf m_ge kl by auto
    then show "coefficient (cs ! j) < coefficient (cs ! k)"
      using km kl \<open>j < k\<close> by (simp add: xs_def)
  qed
  ultimately show ?thesis by blast
qed

lemma max_coefficient_Nil: "max_coefficient [] = Inr None"
  by (simp add: max_coefficient_def)

lemma list_index_distinct:
  assumes "distinct (map client_id cs)" "k < length cs"
  shows "list_index (cs ! k) cs = Inr k"
proof -
  have "\<forall>j<k. cs ! j \<noteq> cs ! k"
  proof (intro allI impI)
    fix j assume "j < k"
    then have "map client_id cs ! j \<noteq> map client_id cs ! k"
      using assms by (simp add: nth_eq_iff_index_eq del: nth_map)
    then show "cs ! j \<noteq> cs ! k" using assms \<open>j < k\<close> by auto
  qed
  then show ?thesis using assms by (simp add: list_index_Inr_iff)
qed

lemma consume_eq:
  assumes "distinct (map client_id (clients_list st))" "k < length (clients_list st)"
    and "files (clients_list st ! k) = f # fs"
  shows "consume k st =
           Inr (if fs = []
                then st\<lparr>num_clients := num_clients st - 1,
                        clients_list := take k (clients_list st) @ drop (Suc k) (clients_list st)\<rparr>
                else st\<lparr>clients_list := (clients_list st)[k := (clients_list st ! k)\<lparr>files := fs\<rparr>]\<rparr>)"
proof -
  define cs where "cs = clients_list st"
  define cs1 where "cs1 = cs[k := (cs ! k)\<lparr>files := fs\<rparr>]"
  have i1: "list_index (cs ! k) cs = Inr k"
    using assms list_index_distinct by (simp add: cs_def)
  have "map client_id cs1 = map client_id cs"
    using assms(2) by (simp add: cs1_def cs_def map_update list_update_same_conv)
  then have "distinct (map client_id cs1)" using assms(1) by (simp add: cs_def)
  moreover have "k < length cs1" using assms(2) by (simp add: cs1_def cs_def)
  ultimately have i2: "list_index (cs1 ! k) cs1 = Inr k" by (rule list_index_distinct)
  have f1: "files (cs1 ! k) = fs" using assms(2) by (simp add: cs1_def cs_def)
  have "take k cs1 @ drop (Suc k) cs1 = take k cs @ drop (Suc k) cs"
    by (simp add: cs1_def)
  then show ?thesis
    using i1 i2 f1 assms(3)
    by (simp add: consume_def Let_def cs_def[symmetric] cs1_def[symmetric])
qed

subsection \<open>The invariant is kept\<close>

lemma queue_inv_init: "queue_inv init"
  by (simp add: queue_inv_def init_def)

lemma sorted_wrt_delete_nth:
  "sorted_wrt P xs \<Longrightarrow> sorted_wrt P (take k xs @ drop (Suc k) xs)"
proof (induction xs arbitrary: k)
  case Nil
  then show ?case by simp
next
  case (Cons x xs)
  show ?case
  proof (cases k)
    case 0
    with Cons.prems show ?thesis by simp
  next
    case (Suc k')
    have "set (take k' xs @ drop (Suc k') xs) \<subseteq> set xs"
      using set_take_subset[of k' xs] set_drop_subset[of "Suc k'" xs] by auto
    with Cons Suc show ?thesis by auto
  qed
qed

lemma set_delete_nth_subset: "set (take k xs @ drop (Suc k) xs) \<subseteq> set xs"
  using set_take_subset[of k xs] set_drop_subset[of "Suc k" xs] by auto

lemma refresh_keeps:
  "refresh n cs = Inr cs' \<Longrightarrow>
     length cs' = length cs \<and> map client_id cs' = map client_id cs \<and> map files cs' = map files cs"
  by (drule refresh_Inr) (simp add: comp_def)

lemma refresh_total:
  assumes "queue_inv st"
  shows "\<exists>cs. refresh (num_clients st) (clients_list st) = Inr cs"
proof (cases "clients_list st")
  case Nil
  then show ?thesis by simp
next
  case (Cons c cs)
  then have "0 < num_clients st" using assms by (simp add: queue_inv_def)
  moreover have "\<forall>c \<in> set (clients_list st). files c \<noteq> [] \<and> 0 < hd (files c)"
    using assms by (auto simp: queue_inv_def entry_ok_def)
  ultimately show ?thesis by (rule refresh_ok)
qed

lemma update_result:
  assumes inv: "queue_inv st"
    and rf: "refresh (num_clients st) (clients_list st) = Inr cs"
  shows "update st =
     Inr (case max_coefficient cs of
            Inr (Some k) \<Rightarrow>
              (case idle_host (status_list st) of
                 None \<Rightarrow> st\<lparr>clients_list := cs\<rparr>
               | Some i \<Rightarrow>
                   if tl (files (cs ! k)) = []
                   then st\<lparr>clients_list := take k cs @ drop (Suc k) cs,
                           threads := threads st @ [(i, client_id (cs ! k))],
                           num_clients := num_clients st - 1\<rparr>
                   else st\<lparr>clients_list := cs[k := (cs ! k)\<lparr>files := tl (files (cs ! k))\<rparr>],
                           threads := threads st @ [(i, client_id (cs ! k))]\<rparr>)
          | _ \<Rightarrow> st\<lparr>clients_list := cs\<rparr>)"
proof (cases "cs = []")
  case True
  then show ?thesis using rf by (simp add: update_def max_coefficient_Nil)
next
  case False
  from max_coefficient_Some[OF False] obtain k where
    k: "max_coefficient cs = Inr (Some k)" "k < length cs" by blast
  note keep = refresh_keeps[OF rf]
  have dist: "distinct (map client_id cs)"
    using inv keep by (simp add: queue_inv_def strict_sorted_iff)
  have "files (cs ! k) = map files (clients_list st) ! k" using keep k by (metis nth_map)
  also have "\<dots> = files (clients_list st ! k)" using keep k by simp
  finally have "files (cs ! k) \<noteq> []" using inv keep k by (simp add: queue_inv_def entry_ok_def)
  then obtain f fs where ffs: "files (cs ! k) = f # fs" by (cases "files (cs ! k)") auto
  show ?thesis
  proof (cases "idle_host (status_list st)")
    case None
    then show ?thesis using rf k by (simp add: update_def)
  next
    case (Some i)
    define st2 where "st2 = st\<lparr>clients_list := cs, threads := threads st @ [(i, client_id (cs ! k))]\<rparr>"
    have "consume k st2 =
           Inr (if fs = []
                then st2\<lparr>num_clients := num_clients st2 - 1,
                        clients_list := take k (clients_list st2) @ drop (Suc k) (clients_list st2)\<rparr>
                else st2\<lparr>clients_list := (clients_list st2)[k := (clients_list st2 ! k)\<lparr>files := fs\<rparr>]\<rparr>)"
      by (rule consume_eq) (use dist k ffs in \<open>simp_all add: st2_def\<close>)
    then show ?thesis using rf k Some ffs
      by (simp add: update_def st2_def)
  qed
qed

lemma queue_inv_refreshed:
  assumes "queue_inv st" "refresh (num_clients st) (clients_list st) = Inr cs"
  shows "queue_inv (st\<lparr>clients_list := cs\<rparr>)"
proof -
  note keep = refresh_keeps[OF assms(2)]
  have "\<forall>c \<in> set cs. entry_ok (next_id st) c"
    using assms(1) refresh_Inr[OF assms(2)] by (auto simp: queue_inv_def entry_ok_def)
  then show ?thesis using assms(1) keep by (simp add: queue_inv_def)
qed

lemma queue_inv_delete:
  assumes "queue_inv st" "k < length (clients_list st)"
  shows "queue_inv (st\<lparr>clients_list := take k (clients_list st) @ drop (Suc k) (clients_list st),
                       num_clients := num_clients st - 1\<rparr>)"
proof -
  let ?cs = "clients_list st"
  have "sorted_wrt (<) (take k (map client_id ?cs) @ drop (Suc k) (map client_id ?cs))"
    using assms(1) by (intro sorted_wrt_delete_nth) (simp add: queue_inv_def)
  moreover have "\<forall>c \<in> set (take k ?cs @ drop (Suc k) ?cs). entry_ok (next_id st) c"
    using assms(1) set_delete_nth_subset[of k ?cs] by (auto simp: queue_inv_def)
  moreover have "num_clients st - 1 = int (length (take k ?cs @ drop (Suc k) ?cs))"
    using assms by (auto simp: queue_inv_def)
  ultimately show ?thesis by (simp add: queue_inv_def take_map drop_map)
qed

lemma queue_inv_drop_file:
  assumes "queue_inv st" "k < length (clients_list st)" "tl (files (clients_list st ! k)) \<noteq> []"
  shows "queue_inv (st\<lparr>clients_list :=
           (clients_list st)[k := (clients_list st ! k)\<lparr>files := tl (files (clients_list st ! k))\<rparr>]\<rparr>)"
proof -
  let ?cs = "clients_list st"
  let ?c = "(?cs ! k)\<lparr>files := tl (files (?cs ! k))\<rparr>"
  have ck: "entry_ok (next_id st) (?cs ! k)" using assms(1,2) by (simp add: queue_inv_def)
  then have "entry_ok (next_id st) ?c"
    using assms(3) by (auto simp: entry_ok_def sorted_tl dest: list.set_sel(2))
  then have "\<forall>c \<in> set (?cs[k := ?c]). entry_ok (next_id st) c"
    using assms(1) set_update_subset_insert[of ?cs k ?c] by (auto simp: queue_inv_def)
  moreover have "map client_id (?cs[k := ?c]) = map client_id ?cs"
    using assms(2) by (simp add: map_update list_update_same_conv)
  ultimately show ?thesis using assms(1) by (simp add: queue_inv_def)
qed

lemma queue_inv_threads: "queue_inv (st\<lparr>threads := ts\<rparr>) = queue_inv st"
  by (simp add: queue_inv_def)

lemma queue_inv_update:
  assumes inv: "queue_inv st"
  shows "\<exists>st'. update st = Inr st' \<and> queue_inv st'"
proof -
  from refresh_total[OF inv] obtain cs where rf: "refresh (num_clients st) (clients_list st) = Inr cs"
    by blast
  define st1 where "st1 = st\<lparr>clients_list := cs\<rparr>"
  have inv1: "queue_inv st1" unfolding st1_def by (rule queue_inv_refreshed[OF inv rf])
  note res = update_result[OF inv rf]
  show ?thesis
  proof (cases "cs = []")
    case True
    then show ?thesis using res inv1 by (simp add: max_coefficient_Nil st1_def)
  next
    case False
    from max_coefficient_Some[OF False] obtain k where
      k: "max_coefficient cs = Inr (Some k)" "k < length cs" by blast
    show ?thesis
    proof (cases "idle_host (status_list st)")
      case None
      then show ?thesis using res inv1 k by (simp add: st1_def)
    next
      case (Some i)
      show ?thesis
      proof (cases "tl (files (cs ! k)) = []")
        case True
        have "queue_inv (st1\<lparr>clients_list := take k (clients_list st1) @ drop (Suc k) (clients_list st1),
                       num_clients := num_clients st1 - 1\<rparr>)"
          by (rule queue_inv_delete[OF inv1]) (simp add: st1_def k)
        then have "queue_inv (st\<lparr>clients_list := take k cs @ drop (Suc k) cs,
                           threads := threads st @ [(i, client_id (cs ! k))],
                           num_clients := num_clients st - 1\<rparr>)"
          by (simp add: st1_def queue_inv_def)
        then show ?thesis using res k Some True by simp
      next
        case False
        have "queue_inv (st1\<lparr>clients_list :=
           (clients_list st1)[k := (clients_list st1 ! k)\<lparr>files := tl (files (clients_list st1 ! k))\<rparr>]\<rparr>)"
          by (rule queue_inv_drop_file[OF inv1]) (use False k in \<open>simp_all add: st1_def\<close>)
        then have "queue_inv (st\<lparr>clients_list := cs[k := (cs ! k)\<lparr>files := tl (files (cs ! k))\<rparr>],
                           threads := threads st @ [(i, client_id (cs ! k))]\<rparr>)"
          by (simp add: st1_def queue_inv_def)
        then show ?thesis using res k Some False by simp
      qed
    qed
  qed
qed

lemma insert_new_client_Inr:
  assumes "insert_new_client k file_size st = Inr st'"
  defines "fs \<equiv> sort (map file_size [1..k - 1])"
  shows "num_clients st + 1 \<noteq> 0 \<and> fs \<noteq> [] \<and>
         0 < real_of_int (hd fs) / real_of_int (num_clients st + 1) \<and>
         st' = st\<lparr>num_clients := num_clients st + 1,
                  clients_list := clients_list st @
                    [\<lparr>client_id = next_id st, files = fs, time = 0,
                      coefficient = log (1 / 2) (real_of_int (hd fs) / real_of_int (num_clients st + 1))\<rparr>],
                  next_id := next_id st + 1\<rparr>"
  using assms(1) unfolding fs_def insert_new_client_def Let_def new_coefficient_eq
  by (auto split: if_splits list.splits simp: not_le)

lemma queue_inv_insert:
  assumes inv: "queue_inv st" and ins: "insert_new_client k file_size st = Inr st'"
  shows "queue_inv st'"
proof -
  define fs where "fs = sort (map file_size [1..k - 1])"
  note r = insert_new_client_Inr[OF ins, folded fs_def]
  have n: "0 < num_clients st + 1" using inv by (simp add: queue_inv_def)
  with r have "0 < hd fs" by (simp add: zero_less_divide_iff)
  moreover have "sorted fs" by (simp add: fs_def)
  ultimately have pos: "\<forall>f \<in> set fs. 0 < f"
    using r by (cases fs) (auto)
  have "entry_ok (next_id st + 1) \<lparr>client_id = next_id st, files = fs, time = 0,
          coefficient = log (1 / 2) (real_of_int (hd fs) / real_of_int (num_clients st + 1))\<rparr>"
    using r pos \<open>sorted fs\<close> by (simp add: entry_ok_def)
  moreover have "\<forall>c \<in> set (clients_list st). entry_ok (next_id st + 1) c"
    using inv by (auto simp: queue_inv_def entry_ok_def)
  moreover have "sorted_wrt (<) (map client_id (clients_list st) @ [next_id st])"
    using inv by (auto simp: queue_inv_def entry_ok_def sorted_wrt_append)
  ultimately show ?thesis using r inv by (simp add: queue_inv_def)
qed

lemma queue_inv_step:
  assumes "queue_inv st" "step e st = Inr st'"
  shows "queue_inv st'"
proof (cases e)
  case (Generate_client k file_size)
  then show ?thesis using assms queue_inv_insert by simp
next
  case Tick
  then show ?thesis using assms queue_inv_update[of st] by auto
next
  case (Change_clock_tick d)
  then show ?thesis using assms by (auto simp: queue_inv_def change_clock_tick_def Let_def)
next
  case (Worker_begin i)
  then show ?thesis using assms
    by (auto simp: queue_inv_def step_proc_pb_begin_def split: if_splits)
next
  case (Worker_end i)
  then show ?thesis using assms
    by (auto simp: queue_inv_def step_proc_pb_end_def split: if_splits)
qed

lemma queue_inv_run: "queue_inv st \<Longrightarrow> run es st = Inr st' \<Longrightarrow> queue_inv st'"
proof (induction es arbitrary: st)
  case Nil
  then show ?case by simp
next
  case (Cons e es)
  then show ?case by (auto split: sum.splits dest: queue_inv_step)
qed

lemma reachable_inv: "run es init = Inr st \<Longrightarrow> queue_inv st"
  using queue_inv_run[OF queue_inv_init] .

subsection \<open>The shape of a tick\<close>

lemma reachable_update:
  assumes "run es init = Inr st"
  obtains cs st' where
    "refresh (num_clients st) (clients_list st) = Inr cs"
    "update st = Inr st'" "queue_inv st" "queue_inv st'"
  using reachable_inv[OF assms] refresh_total queue_inv_update by metis

text \<open>The three ways a tick can end, for a state that satisfies the invariant.\<close>

lemma update_shape:
  assumes inv: "queue_inv st" and up: "update st = Inr st'"
  obtains
    (no_assignment) cs where
      "refresh (num_clients st) (clients_list st) = Inr cs"
      "cs = [] \<or> idle_host (status_list st) = None"
      "st' = st\<lparr>clients_list := cs\<rparr>"
  | (last_file) cs k i where
      "refresh (num_clients st) (clients_list st) = Inr cs"
      "max_coefficient cs = Inr (Some k)" "k < length cs"
      "idle_host (status_list st) = Some i"
      "tl (files (cs ! k)) = []"
      "st' = st\<lparr>clients_list := take k cs @ drop (Suc k) cs,
                threads := threads st @ [(i, client_id (cs ! k))],
                num_clients := num_clients st - 1\<rparr>"
  | (more_files) cs k i where
      "refresh (num_clients st) (clients_list st) = Inr cs"
      "max_coefficient cs = Inr (Some k)" "k < length cs"
      "idle_host (status_list st) = Some i"
      "tl (files (cs ! k)) \<noteq> []"
      "st' = st\<lparr>clients_list := cs[k := (cs ! k)\<lparr>files := tl (files (cs ! k))\<rparr>],
                threads := threads st @ [(i, client_id (cs ! k))]\<rparr>"
proof -
  from refresh_total[OF inv] obtain cs where rf: "refresh (num_clients st) (clients_list st) = Inr cs"
    by blast
  note res = update_result[OF inv rf]
  show thesis
  proof (cases "cs = []")
    case True
    then have "st' = st\<lparr>clients_list := cs\<rparr>"
      using res up by (simp add: max_coefficient_Nil)
    with rf True show thesis by (intro no_assignment[of cs]) auto
  next
    case False
    from max_coefficient_Some[OF False] obtain k where
      k: "max_coefficient cs = Inr (Some k)" "k < length cs" by blast
    show thesis
    proof (cases "idle_host (status_list st)")
      case None
      then have "st' = st\<lparr>clients_list := cs\<rparr>" using res up k by simp
      with rf None show thesis by (intro no_assignment[of cs]) auto
    next
      case (Some i)
      show thesis
      proof (cases "tl (files (cs ! k)) = []")
        case True
        then show thesis using res up k Some rf by (intro last_file[of cs k i]) auto
      next
        case False
        then show thesis using res up k Some rf by (intro more_files[of cs k i]) auto
      qed
    qed
  qed
qed

lemma idle_host_Some:
  "idle_host bs = Some i \<longleftrightarrow> i < length bs \<and> \<not> bs ! i \<and> (\<forall>j<i. bs ! j)"
proof (induction bs arbitrary: i)
  case Nil
  then show ?case by simp
next
  case (Cons b bs)
  show ?case
  proof (cases i)
    case 0
    then show ?thesis by auto
  next
    case (Suc i')
    have "(\<forall>j<Suc i'. (b # bs) ! j) \<longleftrightarrow> b \<and> (\<forall>j<i'. bs ! j)"
      by (auto simp: less_Suc_eq_0_disj)
    with Suc Cons.IH[of i'] show ?thesis by auto
  qed
qed

lemma idle_host_None: "idle_host bs = None \<longleftrightarrow> False \<notin> set bs"
  by (induction bs) auto

subsection \<open>A short run\<close>

lemma run_one_client: "run [Generate_client 2 (\<lambda>_. 5)] init = Inr one_client"
  by (simp add: insert_new_client_def new_coefficient_eq init_def upto.simps numeral_eq_Suc)

lemma update_one_client: "update one_client = Inr served_out"
  by (simp add: update_def new_coefficient_eq max_coefficient_def py_max_def consume_def)

subsection \<open>The files across a tick\<close>

lemma same_id_same_entry:
  assumes "distinct (map client_id cs)" "c \<in> set cs" "d \<in> set cs" "client_id c = client_id d"
  shows "c = d"
  using assms by (meson distinct_map inj_onD)

lemma set_delete_nth_distinct:
  assumes "distinct xs" "k < length xs"
  shows "set (take k xs @ drop (Suc k) xs) = set xs - {xs ! k}"
proof -
  have "xs = take k xs @ xs ! k # drop (Suc k) xs" using assms(2) by (rule id_take_nth_drop)
  then have "distinct (take k xs @ xs ! k # drop (Suc k) xs)"
    and "set xs = set (take k xs @ xs ! k # drop (Suc k) xs)" using assms(1) by simp_all
  then show ?thesis by auto
qed

lemma queue_inv_distinct: "queue_inv st \<Longrightarrow> distinct (map client_id (clients_list st))"
  by (simp add: queue_inv_def strict_sorted_iff)

lemma log_half_inj:
  assumes "0 < x" "0 < y" "log (1 / 2) x = log (1 / 2) (y::real)"
  shows "x = y"
proof -
  have "ln (1 / 2 :: real) \<noteq> 0" by simp
  with assms(3) have "ln x = ln y" by (simp add: log_def)
  with assms(1,2) show ?thesis by simp
qed

lemma log_half_conv: "0 \<le> x \<Longrightarrow> log (1 / 2) x = - log 2 x"
  by (simp add: log_def ln_div)

text \<open>What a tick does to the files of the entries, and which entry it removes. The
  worker started in the tick, if any, names the entry that lost its first file.\<close>

lemma update_files:
  assumes inv: "queue_inv st" and up: "update st = Inr st'"
  shows "\<forall>c' \<in> set (clients_list st'). \<exists>c \<in> set (clients_list st).
           client_id c' = client_id c \<and>
           files c' = (if \<exists>i. threads st' = threads st @ [(i, client_id c)]
                       then tl (files c) else files c)"
    and "\<forall>c \<in> set (clients_list st).
           (client_id c \<notin> client_id ` set (clients_list st')) =
           ((\<exists>i. threads st' = threads st @ [(i, client_id c)]) \<and> length (files c) = 1)"
proof -
  let ?cs0 = "clients_list st"
  let ?g = "\<lambda>c. c\<lparr>time := time c + 1,
                   coefficient := 1 / real_of_int (num_clients st) * real_of_int (time c + 1)
                     + log (1 / 2) (real_of_int (hd (files c)) / real_of_int (num_clients st))\<rparr>"
  have d0: "distinct (map client_id ?cs0)" using inv by (rule queue_inv_distinct)
  have ne: "\<forall>c \<in> set ?cs0. files c \<noteq> []" using inv by (simp add: queue_inv_def entry_ok_def)
  have both: "(\<forall>c' \<in> set (clients_list st'). \<exists>c \<in> set (clients_list st).
           client_id c' = client_id c \<and>
           files c' = (if \<exists>i. threads st' = threads st @ [(i, client_id c)]
                       then tl (files c) else files c)) \<and>
      (\<forall>c \<in> set (clients_list st).
           (client_id c \<notin> client_id ` set (clients_list st')) =
           ((\<exists>i. threads st' = threads st @ [(i, client_id c)]) \<and> length (files c) = 1))"
    using inv up
  proof (cases rule: update_shape)
    case (no_assignment cs)
    have cs: "cs = map ?g ?cs0" using no_assignment(1) by (rule refresh_Inr)
    have "client_id ` set cs = client_id ` set ?cs0" by (auto simp: cs image_iff)
    then show ?thesis using no_assignment(3) by (auto simp: cs)
  next
    case (last_file cs k i)
    have cs: "cs = map ?g ?cs0" using last_file(1) by (rule refresh_Inr)
    have k: "k < length ?cs0" using last_file(3) by (simp add: cs)
    have dcs: "distinct (map client_id cs)" using d0 by (simp add: cs comp_def)
    then have "distinct cs" by (simp add: distinct_map)
    then have "set (take k cs @ drop (Suc k) cs) = set cs - {cs ! k}"
      using last_file(3) by (rule set_delete_nth_distinct)
    then have rest: "set (clients_list st') = set cs - {cs ! k}"
      using last_file(6) by simp
    have idk: "client_id (cs ! k) = client_id (?cs0 ! k)" using k by (simp add: cs)
    have fk: "length (files (?cs0 ! k)) = 1"
      using last_file(5) ne k by (cases "files (?cs0 ! k)") (auto simp: cs)
    have th: "threads st' = threads st @ [(i, client_id (?cs0 ! k))]"
      using last_file(6) idk by simp
    have a: "\<exists>c \<in> set ?cs0. client_id c' = client_id c \<and>
           files c' = (if \<exists>i. threads st' = threads st @ [(i, client_id c)]
                       then tl (files c) else files c)" if c': "c' \<in> set (clients_list st')" for c'
    proof -
      from c' rest obtain c where c: "c \<in> set ?cs0" "c' = ?g c" "c' \<noteq> cs ! k" "c' \<in> set cs"
        by (auto simp: cs)
      have "client_id c \<noteq> client_id (?cs0 ! k)"
      proof
        assume "client_id c = client_id (?cs0 ! k)"
        then have "client_id c' = client_id (cs ! k)" using c(2) idk by simp
        then have "c' = cs ! k"
          using same_id_same_entry[OF dcs c(4)] last_file(3) by simp
        then show False using c(3) by simp
      qed
      then show ?thesis using c th by (intro bexI[of _ c]) auto
    qed
    have b: "(client_id c \<notin> client_id ` set (clients_list st')) =
           ((\<exists>i. threads st' = threads st @ [(i, client_id c)]) \<and> length (files c) = 1)"
      if c: "c \<in> set ?cs0" for c
    proof (cases "client_id c = client_id (?cs0 ! k)")
      case True
      then have ck: "c = ?cs0 ! k" using same_id_same_entry[OF d0 c] k by simp
      have "client_id c \<notin> client_id ` set (clients_list st')"
      proof
        assume "client_id c \<in> client_id ` set (clients_list st')"
        then obtain c' where m: "c' \<in> set (clients_list st')" and e: "client_id c' = client_id c"
          by (metis imageE)
        have c': "c' \<in> set cs" "c' \<noteq> cs ! k" "client_id c' = client_id c"
          using m e rest by simp_all
        then have "c' = cs ! k"
          using same_id_same_entry[OF dcs c'(1), of "cs ! k"] last_file(3) True idk by simp
        then show False using c' by simp
      qed
      then show ?thesis using th fk ck by auto
    next
      case False
      have gin: "?g c \<in> set cs" using c by (simp add: cs)
      have "?g c \<noteq> cs ! k"
      proof
        assume "?g c = cs ! k"
        then have "client_id (?g c) = client_id (cs ! k)" by (rule arg_cong)
        then show False using False idk by simp
      qed
      then have "?g c \<in> set (clients_list st')" using gin rest by simp
      then have "client_id (?g c) \<in> client_id ` set (clients_list st')" by (rule imageI)
      then have "client_id c \<in> client_id ` set (clients_list st')" by simp
      then show ?thesis using th False by auto
    qed
    show ?thesis using a b by blast
  next
    case (more_files cs k i)
    have cs: "cs = map ?g ?cs0" using more_files(1) by (rule refresh_Inr)
    have k: "k < length ?cs0" using more_files(3) by (simp add: cs)
    have dcs: "distinct (map client_id cs)" using d0 by (simp add: cs comp_def)
    have idk: "client_id (cs ! k) = client_id (?cs0 ! k)" using k by (simp add: cs)
    have fk: "files (cs ! k) = files (?cs0 ! k)" using k by (simp add: cs)
    have th: "threads st' = threads st @ [(i, client_id (?cs0 ! k))]"
      using more_files(6) idk by simp
    have ids: "map client_id (clients_list st') = map client_id ?cs0"
      using more_files(6) k by (simp add: cs map_update list_update_same_conv comp_def)
    have a: "\<exists>c \<in> set ?cs0. client_id c' = client_id c \<and>
           files c' = (if \<exists>i. threads st' = threads st @ [(i, client_id c)]
                       then tl (files c) else files c)" if c': "c' \<in> set (clients_list st')" for c'
    proof -
      from c' obtain j where j: "j < length cs" "c' = (cs[k := (cs ! k)\<lparr>files := tl (files (cs ! k))\<rparr>]) ! j"
        using more_files(6) by (auto simp: in_set_conv_nth)
      show ?thesis
      proof (cases "j = k")
        case True
        then have "client_id c' = client_id (?cs0 ! k)" "files c' = tl (files (?cs0 ! k))"
          using j idk fk by simp_all
        then show ?thesis using th k by (intro bexI[of _ "?cs0 ! k"]) auto
      next
        case False
        then have cj: "c' = ?g (?cs0 ! j)" using j by (simp add: cs)
        have "client_id (?cs0 ! j) \<noteq> client_id (?cs0 ! k)"
          using d0 False j k by (simp add: cs distinct_conv_nth)
        then show ?thesis using th cj j by (intro bexI[of _ "?cs0 ! j"]) (auto simp: cs)
      qed
    qed
    have "length (files (?cs0 ! k)) \<noteq> 1"
      using more_files(5) fk by (cases "files (?cs0 ! k)") auto
    moreover have "client_id ` set (clients_list st') = client_id ` set ?cs0"
      using ids by (metis set_map)
    ultimately have b: "(client_id c \<notin> client_id ` set (clients_list st')) =
           ((\<exists>i. threads st' = threads st @ [(i, client_id c)]) \<and> length (files c) = 1)"
      if c: "c \<in> set ?cs0" for c
      using th c same_id_same_entry[OF d0 c, of "?cs0 ! k"] k by auto
    show ?thesis using a b by blast
  qed
  from both show "\<forall>c' \<in> set (clients_list st'). \<exists>c \<in> set (clients_list st).
           client_id c' = client_id c \<and>
           files c' = (if \<exists>i. threads st' = threads st @ [(i, client_id c)]
                       then tl (files c) else files c)" by blast
  from both show "\<forall>c \<in> set (clients_list st).
           (client_id c \<notin> client_id ` set (clients_list st')) =
           ((\<exists>i. threads st' = threads st @ [(i, client_id c)]) \<and> length (files c) = 1)" by blast
qed

subsection \<open>More short runs\<close>

lemma run_two_files: "run [Generate_client 3 (\<lambda>i. 10 - i)] init = Inr two_files"
  by (simp add: insert_new_client_def new_coefficient_eq init_def upto.simps numeral_eq_Suc)

lemma update_two_files: "update two_files = Inr one_file_left"
  by (simp add: update_def new_coefficient_eq max_coefficient_def py_max_def consume_def)

lemma run_tie: "run [Generate_client 2 (\<lambda>_. 5), Generate_client 2 (\<lambda>_. 5)] init = Inr tie"
  by (simp add: insert_new_client_def new_coefficient_eq init_def upto.simps numeral_eq_Suc Let_def)

lemma refresh_tie: "refresh (num_clients tie) (clients_list tie) = Inr tie_refreshed"
  by (simp add: new_coefficient_eq)

lemma max_coefficient_tie: "max_coefficient tie_refreshed = Inr (Some 0)"
  by (simp add: max_coefficient_def py_max_def)

subsection \<open>Numeric bounds and the entries after a tick\<close>

lemma log_2_5_bounds: "339 / 146 < log 2 (5::real) \<and> log 2 (5::real) < 815 / 351"
proof
  have "(2::real) ^ 339 < 5 ^ 146" by simp
  then have "log 2 ((2::real) ^ 339) < log 2 (5 ^ 146)"
    by (subst log_less_cancel_iff) (simp_all del: power_numeral)
  then have "339 < 146 * log 2 (5::real)"
    by (simp add: log_nat_power del: power_numeral)
  then show "339 / 146 < log 2 (5::real)" by simp
next
  have "(5::real) ^ 351 < 2 ^ 815" by simp
  then have "log 2 ((5::real) ^ 351) < log 2 (2 ^ 815)"
    by (subst log_less_cancel_iff) (simp_all del: power_numeral)
  then have "351 * log 2 (5::real) < 815"
    by (simp add: log_nat_power del: power_numeral)
  then show "log 2 (5::real) < 815 / 351" by simp
qed

text \<open>Every entry after a tick is the refreshed form of an entry before it, with or
  without its first file.\<close>

lemma update_entries:
  assumes inv: "queue_inv st" and up: "update st = Inr st'"
    and rf: "refresh (num_clients st) (clients_list st) = Inr cs"
  shows "\<forall>c' \<in> set (clients_list st'). \<exists>c \<in> set cs.
           client_id c' = client_id c \<and> time c' = time c \<and> coefficient c' = coefficient c"
  using inv up
proof (cases rule: update_shape)
  case (no_assignment cs1)
  then show ?thesis using rf by auto
next
  case (last_file cs1 k i)
  then have "set (clients_list st') \<subseteq> set cs"
    using rf set_delete_nth_subset[of k cs] by simp
  then show ?thesis by blast
next
  case (more_files cs1 k i)
  have e: "cs1 = cs" using more_files(1) rf by simp
  have "\<exists>c \<in> set cs. client_id c' = client_id c \<and> time c' = time c \<and> coefficient c' = coefficient c"
    if "c' \<in> set (clients_list st')" for c'
  proof -
    have "c' \<in> insert ((cs ! k)\<lparr>files := tl (files (cs ! k))\<rparr>) (set cs)"
      using that more_files(6) e set_update_subset_insert[of cs k] by auto
    moreover have "cs ! k \<in> set cs" using more_files(3) e by simp
    ultimately show ?thesis by auto
  qed
  then show ?thesis by blast
qed

subsection \<open>The hosts and the workers\<close>

lemma run_host_0_twice:
  "run [Generate_client 2 (\<lambda>_. 5), Generate_client 2 (\<lambda>_. 5), Tick, Tick] init
     = Inr host_0_twice"
  by (simp add: insert_new_client_def new_coefficient_eq init_def upto.simps numeral_eq_Suc
      Let_def update_def max_coefficient_def py_max_def consume_def step_proc_pb_begin_def)

lemma run_late_state:
  "run [Generate_client 6 (\<lambda>i. 10 - i),
        Tick, Worker_begin 0, Tick, Worker_begin 1, Tick, Worker_begin 2, Tick] init
     = Inr late_state"
  by (simp add: insert_new_client_def new_coefficient_eq init_def upto.simps numeral_eq_Suc
      Let_def update_def max_coefficient_def py_max_def consume_def step_proc_pb_begin_def)

lemma consume_status_list: "consume k st = Inr st' \<Longrightarrow> status_list st' = status_list st"
  by (auto simp: consume_def Let_def split: sum.splits list.splits if_splits)

lemma update_status_list: "update st = Inr st' \<Longrightarrow> status_list st' = status_list st"
  by (auto simp: update_def Let_def split: sum.splits option.splits dest: consume_status_list)

lemma flag_cleared_by_worker_end:
  assumes "step e st = Inr st'" "i < length (status_list st)"
    and "status_list st ! i" "\<not> status_list st' ! i"
  shows "e = Worker_end i"
proof (cases e)
  case (Generate_client k file_size)
  then show ?thesis using assms insert_new_client_Inr[of k file_size st st'] by auto
next
  case Tick
  then show ?thesis using assms update_status_list[of st st'] by simp
next
  case (Change_clock_tick d)
  then show ?thesis using assms by (auto simp: change_clock_tick_def Let_def)
next
  case (Worker_begin j)
  then show ?thesis using assms
    by (auto simp: step_proc_pb_begin_def nth_list_update split: if_splits)
next
  case (Worker_end j)
  then show ?thesis using assms
    by (auto simp: step_proc_pb_end_def nth_list_update split: if_splits)
qed

text \<open>What a tick does about the hosts: it leaves the flags alone and calls
  \<^verbatim>\<open>Thread(...).start()\<close> at most once, when the queue is not empty and a flag is
  \<^verbatim>\<open>False\<close>, with \<^verbatim>\<open>i\<close> at the first such position.\<close>

lemma update_starts_at_most_one_thread:
  assumes "run es init = Inr st"
  shows "\<exists>st'. update st = Inr st' \<and> status_list st' = status_list st \<and>
           (if clients_list st \<noteq> [] \<and> False \<in> set (status_list st)
            then \<exists>i cid.
                   threads st' = threads st @ [(i, cid)] \<and>
                   idle_host (status_list st) = Some i \<and>
                   cid \<in> client_id ` set (clients_list st)
            else threads st' = threads st)"
proof -
  have inv: "queue_inv st" using assms by (rule reachable_inv)
  from queue_inv_update[OF inv] obtain st' where up: "update st = Inr st'" by blast
  have ss: "status_list st' = status_list st" using up by (rule update_status_list)
  let ?P = "\<lambda>st'. if clients_list st \<noteq> [] \<and> False \<in> set (status_list st)
            then \<exists>i cid.
                   threads st' = threads st @ [(i, cid)] \<and>
                   idle_host (status_list st) = Some i \<and>
                   cid \<in> client_id ` set (clients_list st)
            else threads st' = threads st"
  have started: "?P st'"
    if rf: "refresh (num_clients st) (clients_list st) = Inr cs"
      and k: "k < length cs" and i: "idle_host (status_list st) = Some i"
      and th: "threads st' = threads st @ [(i, client_id (cs ! k))]"
    for cs k i
  proof -
    note keep = refresh_keeps[OF rf]
    have ii: "i < length (status_list st)" "\<not> status_list st ! i"
      using i by (simp_all add: idle_host_Some)
    have c1: "clients_list st \<noteq> []" using keep k by auto
    have c2: "False \<in> set (status_list st)" using ii by (metis nth_mem)
    have "client_id (cs ! k) = map client_id (clients_list st) ! k"
      using keep k by (metis nth_map)
    then have c3: "client_id (cs ! k) \<in> client_id ` set (clients_list st)"
      using keep k by simp
    show ?thesis using c1 c2 th i c3 by auto
  qed
  have "?P st'" using inv up
  proof (cases rule: update_shape)
    case (no_assignment cs)
    note keep = refresh_keeps[OF no_assignment(1)]
    have "clients_list st = [] \<or> False \<notin> set (status_list st)"
      using no_assignment(2) keep by (auto simp: idle_host_None)
    then show ?thesis using no_assignment(3) by auto
  next
    case (last_file cs k i)
    show ?thesis
      by (rule started[OF last_file(1,3,4)]) (simp add: last_file(6))
  next
    case (more_files cs k i)
    show ?thesis
      by (rule started[OF more_files(1,3,4)]) (simp add: more_files(6))
  qed
  then show ?thesis using up ss by blast
qed

section \<open>The claims\<close>

text \<open>
  C1. With \<open>c\<close> the size of the queue, \<open>t\<close> the time of a client and \<open>v\<close> its first
  file, the coefficient is \<open>(1 / c) * t + log\<^bsub>1/2\<^esub> (v / c)\<close>. From a reachable state: an
  insertion gives the new client the time 0 and the value of the formula for the size of
  the queue that holds it; the first file of every entry is its smallest; the refresh
  of a tick raises every time by one and computes every coefficient with one and the same
  size, the size of the queue at the start of the tick; and the entries left after the
  tick carry these times and coefficients. A single client with the file 5 in the empty
  queue gets \<open>- log\<^sub>2 5\<close>, which is -2.3219 to four decimal places.
\<close>

theorem coefficient_formula:
  assumes "run es init = Inr st"
  defines "n \<equiv> real (length (clients_list st))"
  shows "(\<forall>k file_size st'. insert_new_client k file_size st = Inr st' \<longrightarrow>
            (\<exists>c. clients_list st' = clients_list st @ [c] \<and> time c = 0 \<and> files c \<noteq> [] \<and>
               coefficient c =
                 1 / real (length (clients_list st')) * 0
                 + log (1 / 2) (real_of_int (hd (files c)) / real (length (clients_list st'))))) \<and>
         (\<forall>c \<in> set (clients_list st). files c \<noteq> [] \<and> (\<forall>f \<in> set (files c). hd (files c) \<le> f)) \<and>
         refresh (num_clients st) (clients_list st) =
           Inr (map (\<lambda>c. c\<lparr>time := time c + 1,
                             coefficient := 1 / n * real_of_int (time c + 1)
                               + log (1 / 2) (real_of_int (hd (files c)) / n)\<rparr>)
                    (clients_list st)) \<and>
         (\<exists>st'. update st = Inr st' \<and>
            (\<forall>c' \<in> set (clients_list st'). \<exists>c \<in> set (clients_list st).
               client_id c' = client_id c \<and> time c' = time c + 1 \<and>
               coefficient c' = 1 / n * real_of_int (time c + 1)
                                + log (1 / 2) (real_of_int (hd (files c)) / n))) \<and>
         insert_new_client 2 (\<lambda>_. 5) init = Inr one_client \<and>
         map coefficient (clients_list one_client) = [1 / 1 * 0 + log (1 / 2) (5 / 1)] \<and>
         log (1 / 2) (5 / 1 :: real) = - log 2 5 \<and>
         \<bar>- log 2 (5 :: real) - (- 2.3219)\<bar> < 0.00005"
proof -
  have inv: "queue_inv st" using assms(1) by (rule reachable_inv)
  have nc: "real_of_int (num_clients st) = n" using inv by (simp add: queue_inv_def n_def)
  have 1: "\<exists>c. clients_list st' = clients_list st @ [c] \<and> time c = 0 \<and> files c \<noteq> [] \<and>
               coefficient c =
                 1 / real (length (clients_list st')) * 0
                 + log (1 / 2) (real_of_int (hd (files c)) / real (length (clients_list st')))"
    if ins: "insert_new_client k file_size st = Inr st'" for k file_size st'
  proof -
    define fs where "fs = sort (map file_size [1..k - 1])"
    define c where "c = \<lparr>client_id = next_id st, files = fs, time = 0,
      coefficient = log (1 / 2) (real_of_int (hd fs) / real_of_int (num_clients st + 1))\<rparr>"
    note r = insert_new_client_Inr[OF ins, folded fs_def]
    have a: "clients_list st' = clients_list st @ [c]" using r by (simp add: c_def)
    have "int (length (clients_list st')) = num_clients st + 1"
      using inv by (simp add: a queue_inv_def)
    then have "real (length (clients_list st')) = real_of_int (num_clients st + 1)"
      by (metis of_int_of_nat_eq)
    then have "coefficient c =
                 1 / real (length (clients_list st')) * 0
                 + log (1 / 2) (real_of_int (hd (files c)) / real (length (clients_list st')))"
      by (simp only: c_def client.simps mult_zero_right add_0)
    moreover have "time c = 0" "files c \<noteq> []" using r by (simp_all add: c_def)
    ultimately show ?thesis using a by blast
  qed
  have 2: "\<forall>c \<in> set (clients_list st). files c \<noteq> [] \<and> (\<forall>f \<in> set (files c). hd (files c) \<le> f)"
  proof
    fix c assume "c \<in> set (clients_list st)"
    then have "files c \<noteq> []" "sorted (files c)"
      using inv by (simp_all add: queue_inv_def entry_ok_def)
    then show "files c \<noteq> [] \<and> (\<forall>f \<in> set (files c). hd (files c) \<le> f)"
      by (cases "files c") auto
  qed
  from refresh_total[OF inv] obtain cs where rf: "refresh (num_clients st) (clients_list st) = Inr cs"
    by blast
  have cs: "cs = map (\<lambda>c. c\<lparr>time := time c + 1,
                             coefficient := 1 / n * real_of_int (time c + 1)
                               + log (1 / 2) (real_of_int (hd (files c)) / n)\<rparr>)
                    (clients_list st)"
    using refresh_Inr[OF rf] unfolding nc .
  from queue_inv_update[OF inv] obtain st' where up: "update st = Inr st'" by blast
  have 4: "\<forall>c' \<in> set (clients_list st'). \<exists>c \<in> set (clients_list st).
               client_id c' = client_id c \<and> time c' = time c + 1 \<and>
               coefficient c' = 1 / n * real_of_int (time c + 1)
                                + log (1 / 2) (real_of_int (hd (files c)) / n)"
  proof
    fix c' assume "c' \<in> set (clients_list st')"
    with update_entries[OF inv up rf] obtain d where
      d: "d \<in> set cs" "client_id c' = client_id d" "time c' = time d" "coefficient c' = coefficient d"
      by blast
    from d(1) obtain c where c: "c \<in> set (clients_list st)"
      "d = c\<lparr>time := time c + 1,
             coefficient := 1 / n * real_of_int (time c + 1)
                               + log (1 / 2) (real_of_int (hd (files c)) / n)\<rparr>"
      unfolding cs by auto
    show "\<exists>c \<in> set (clients_list st).
               client_id c' = client_id c \<and> time c' = time c + 1 \<and>
               coefficient c' = 1 / n * real_of_int (time c + 1)
                                + log (1 / 2) (real_of_int (hd (files c)) / n)"
      using c d by (intro bexI[of _ c]) simp_all
  qed
  have 5: "insert_new_client 2 (\<lambda>_. 5) init = Inr one_client"
    using run_one_client by (cases "insert_new_client 2 (\<lambda>_. 5) init") simp_all
  have 6: "map coefficient (clients_list one_client) = [1 / 1 * 0 + log (1 / 2) (5 / 1)]" by simp
  have 7: "log (1 / 2) (5 / 1 :: real) = - log 2 5" by (simp add: log_half_conv)
  have 8: "\<bar>- log 2 (5 :: real) - (- 2.3219)\<bar> < 0.00005"
    using log_2_5_bounds by (simp add: abs_less_iff)
  show ?thesis using 1 2 rf cs up 4 5 6 7 8 by blast
qed

theorem coefficient_formula_witness:
  "run [Generate_client 3 (\<lambda>i. 10 - i)] init = Inr two_files \<and>
   update two_files = Inr one_file_left \<and>
   map time (clients_list two_files) = [0] \<and>
   map time (clients_list one_file_left) = [1] \<and>
   map coefficient (clients_list one_file_left) = [1 / 1 * 1 + log (1 / 2) (8 / 1)] \<and>
   insert_new_client 2 (\<lambda>_. 5) init = Inr one_client \<and>
   map coefficient (clients_list one_client) = [- log 2 5] \<and>
   \<bar>- log 2 (5 :: real) - (- 2.3219)\<bar> < 0.00005"
proof -
  note t = coefficient_formula[OF run_two_files]
  from t have a: "insert_new_client 2 (\<lambda>_. 5) init = Inr one_client" by blast
  from t have b: "\<bar>- log 2 (5 :: real) - (- 2.3219)\<bar> < 0.00005" by blast
  from t have c: "log (1 / 2) (5 / 1 :: real) = - log 2 5" by blast
  have d: "map coefficient (clients_list one_client) = [- log 2 5]" using c by simp
  have e: "map coefficient (clients_list one_file_left) = [1 / 1 * 1 + log (1 / 2) (8 / 1)]"
    by simp
  show ?thesis using a b d e run_two_files update_two_files
    by (simp del: run.simps)
qed

text \<open>
  C2. The code does not keep this. Nothing but the last statement of a worker clears a
  flag, but it is the worker that sets it too, not the tick that picks the host: when two
  ticks pass before the first worker has run its first statement, both find host 0 idle,
  and the clients 1 and 2 are sent to it at the same time. And the position whose flag a
  worker sets and clears is read late: the worker started for host 3 can find 0 in
  \<^verbatim>\<open>i\<close>, and then its last statement clears the flag of host 0, whose own worker is
  still at work.
\<close>

theorem host_assigned_twice:
  "run [Generate_client 2 (\<lambda>_. 5), Generate_client 2 (\<lambda>_. 5), Tick, Tick] init
     = Inr host_0_twice \<and>
   threads host_0_twice = [(0, 1), (0, 2)] \<and>
   status_list host_0_twice = [False, False, False, False, False] \<and>
   run [Generate_client 6 (\<lambda>i. 10 - i),
        Tick, Worker_begin 0, Tick, Worker_begin 1, Tick, Worker_begin 2, Tick] init
     = Inr late_state \<and>
   lambda_status_index 3 late_state = [3, 0] \<and>
   step_proc_pb_end 0 late_state =
     Inr (late_state\<lparr>status_list := [False, True, True, False, False]\<rparr>)"
  using run_host_0_twice run_late_state
  by (simp add: lambda_status_index_def step_proc_pb_end_def del: run.simps)

text \<open>
  C3, as stated, fails. The claim gives every new client between 2 and 10 files. The
  number of files is one less than the value of \<^verbatim>\<open>random.randint(2, 11)\<close>, because
  \<^verbatim>\<open>range(1, k)\<close> has \<open>k - 1\<close> elements: for the draw \<open>k = 2\<close> the client gets a
  single file.
\<close>

theorem two_to_ten_files_counterexample:
  "randint_ok 2 (\<lambda>_. 5) \<and>
   insert_new_client 2 (\<lambda>_. 5) init = Inr one_client \<and>
   files (last (clients_list one_client)) = [5] \<and>
   \<not> 2 \<le> length (files (last (clients_list one_client)))"
proof -
  have "insert_new_client 2 (\<lambda>_. 5) init = Inr one_client"
    using run_one_client by (cases "insert_new_client 2 (\<lambda>_. 5) init") simp_all
  then show ?thesis by (simp add: randint_ok_def)
qed

text \<open>
  C3, amended. For draws that \<^verbatim>\<open>random.randint\<close> can return, an insertion into a reachable
  state succeeds; the new client has \<open>k - 1\<close> files, that is between 1 and 10, each
  of a size from 1 to 1000, and in ascending order when the entry joins the queue.
\<close>

theorem one_to_ten_files:
  assumes "run es init = Inr st" and "randint_ok k file_size"
  shows "\<exists>st' c. insert_new_client k file_size st = Inr st' \<and>
           clients_list st' = clients_list st @ [c] \<and>
           length (files c) = nat (k - 1) \<and>
           1 \<le> length (files c) \<and> length (files c) \<le> 10 \<and>
           (\<forall>f \<in> set (files c). 1 \<le> f \<and> f \<le> 1000) \<and>
           sorted (files c)"
proof -
  have inv: "queue_inv st" using assms(1) by (rule reachable_inv)
  define fs where "fs = sort (map file_size [1..k - 1])"
  have k: "2 \<le> k" "k \<le> 11" and sz: "\<forall>i \<in> set [1..k - 1]. 1 \<le> file_size i \<and> file_size i \<le> 1000"
    using assms(2) by (simp_all add: randint_ok_def)
  have len: "length fs = nat (k - 1)" by (simp add: fs_def)
  have rng: "\<forall>f \<in> set fs. 1 \<le> f \<and> f \<le> 1000" using sz by (auto simp: fs_def)
  have ne: "fs \<noteq> []" using len k by auto
  then obtain v vs where fs: "fs = v # vs" by (cases fs) auto
  have "1 \<le> v" using rng fs by simp
  moreover have "0 < num_clients st + 1" using inv by (simp add: queue_inv_def)
  ultimately have "0 < real_of_int v / real_of_int (num_clients st + 1)"
    by (intro divide_pos_pos) simp_all
  then have nc: "new_coefficient (num_clients st + 1) 0 fs =
      Inr (log (1 / 2) (real_of_int v / real_of_int (num_clients st + 1)))"
    using \<open>0 < num_clients st + 1\<close> by (simp add: new_coefficient_eq fs not_le)
  define c where "c = \<lparr>client_id = next_id st, files = fs, time = 0,
      coefficient = log (1 / 2) (real_of_int v / real_of_int (num_clients st + 1))\<rparr>"
  define st' where "st' = st\<lparr>num_clients := num_clients st + 1,
      clients_list := clients_list st @ [c], next_id := next_id st + 1\<rparr>"
  have "insert_new_client k file_size st = Inr st'"
    using nc by (simp add: insert_new_client_def Let_def fs_def[symmetric] st'_def c_def)
  moreover have "clients_list st' = clients_list st @ [c]" by (simp add: st'_def)
  moreover have "length (files c) = nat (k - 1)" using len by (simp add: c_def)
  moreover have "1 \<le> length (files c)" "length (files c) \<le> 10" using len k by (simp_all add: c_def)
  moreover have "\<forall>f \<in> set (files c). 1 \<le> f \<and> f \<le> 1000" using rng by (simp add: c_def)
  moreover have "sorted (files c)" by (simp add: c_def fs_def)
  ultimately show ?thesis by blast
qed

theorem one_to_ten_files_witness:
  "run [] init = Inr init \<and> randint_ok 2 (\<lambda>_. 5) \<and>
   insert_new_client 2 (\<lambda>_. 5) init = Inr one_client \<and>
   map files (clients_list one_client) = [[5]] \<and>
   randint_ok 11 (\<lambda>i. 100 * i) \<and>
   map files (clients_list (case insert_new_client 11 (\<lambda>i. 100 * i) init of Inr s \<Rightarrow> s)) =
     [[100, 200, 300, 400, 500, 600, 700, 800, 900, 1000]]"
proof -
  have r: "run [] init = Inr init" by simp
  have a: "randint_ok 2 (\<lambda>_. 5)" by (simp add: randint_ok_def)
  have b: "randint_ok 11 (\<lambda>i. 100 * i)" by (simp add: randint_ok_def upto.simps)
  have c: "insert_new_client 2 (\<lambda>_. 5) init = Inr one_client"
    using one_to_ten_files[OF r a] run_one_client
    by (cases "insert_new_client 2 (\<lambda>_. 5) init") simp_all
  have d: "map files (clients_list (case insert_new_client 11 (\<lambda>i. 100 * i) init of Inr s \<Rightarrow> s)) =
     [[100, 200, 300, 400, 500, 600, 700, 800, 900, 1000]]"
    using one_to_ten_files[OF r b]
    by (simp add: insert_new_client_def new_coefficient_eq init_def upto.simps Let_def)
  show ?thesis using r a b c d by simp
qed

text \<open>
  C4. For a non-empty queue, as it stands in a reachable state or as the refresh of a tick
  leaves it, the selection binds \<open>max_coefficient\<close> to an entry whose coefficient is
  the greatest; every entry before it has a strictly smaller coefficient, so among equal
  maxima it is the first in the list, and it has the smallest id of them. The choice is
  a function of the coefficients alone: any list with the same coefficients gives the
  same position.
\<close>

theorem selection_greatest_earliest:
  assumes "run es init = Inr st"
    and "cs = clients_list st \<or> refresh (num_clients st) (clients_list st) = Inr cs"
    and "cs \<noteq> []"
  shows "\<exists>k<length cs. max_coefficient cs = Inr (Some k) \<and>
           (\<forall>j<length cs. coefficient (cs ! j) \<le> coefficient (cs ! k)) \<and>
           (\<forall>j<k. coefficient (cs ! j) < coefficient (cs ! k)) \<and>
           (\<forall>j<length cs. coefficient (cs ! j) = coefficient (cs ! k) \<longrightarrow>
              client_id (cs ! k) \<le> client_id (cs ! j)) \<and>
           (\<forall>cs'. map coefficient cs' = map coefficient cs \<longrightarrow>
              max_coefficient cs' = Inr (Some k))"
proof -
  have inv: "queue_inv st" using assms(1) by (rule reachable_inv)
  have "map client_id cs = map client_id (clients_list st)"
    using assms(2) refresh_keeps by blast
  then have ids: "sorted_wrt (<) (map client_id cs)" using inv by (simp add: queue_inv_def)
  from max_coefficient_Some[OF assms(3)] obtain k where
    k: "max_coefficient cs = Inr (Some k)" "k < length cs"
      "\<forall>j<length cs. coefficient (cs ! j) \<le> coefficient (cs ! k)"
      "\<forall>j<k. coefficient (cs ! j) < coefficient (cs ! k)"
    by blast
  have early: "client_id (cs ! k) \<le> client_id (cs ! j)"
    if j: "j < length cs" "coefficient (cs ! j) = coefficient (cs ! k)" for j
  proof (cases "j = k")
    case True
    then show ?thesis by simp
  next
    case False
    have "\<not> j < k" using k(4) j(2) by auto
    then have "k < j" using False by simp
    then have "map client_id cs ! k < map client_id cs ! j"
      using ids j(1) by (simp add: sorted_wrt_iff_nth_less del: nth_map)
    then show ?thesis using j(1) k(2) by simp
  qed
  have same: "max_coefficient cs' = Inr (Some k)"
    if "map coefficient cs' = map coefficient cs" for cs'
  proof -
    have "cs' \<noteq> []" using that assms(3) by auto
    then have "max_coefficient cs' = max_coefficient cs"
      unfolding max_coefficient_def that using assms(3) by simp
    then show ?thesis using k(1) by simp
  qed
  show ?thesis using k early same by blast
qed

theorem selection_greatest_earliest_witness:
  "run [Generate_client 2 (\<lambda>_. 5), Generate_client 2 (\<lambda>_. 5)] init = Inr tie \<and>
   refresh (num_clients tie) (clients_list tie) = Inr tie_refreshed \<and>
   map coefficient tie_refreshed = [1 / 2 + log (1 / 2) (5 / 2), 1 / 2 + log (1 / 2) (5 / 2)] \<and>
   max_coefficient tie_refreshed = Inr (Some 0) \<and>
   map client_id tie_refreshed = [1, 2]"
proof -
  have ne: "tie_refreshed \<noteq> []" by simp
  from selection_greatest_earliest[OF run_tie disjI2[OF refresh_tie] ne] max_coefficient_tie
  have "max_coefficient tie_refreshed = Inr (Some 0)" by simp
  then show ?thesis using run_tie refresh_tie by (simp del: run.simps refresh.simps)
qed

text \<open>
  C5. The code does not keep this. A tick starts at most one worker, and when it does the
  loop variable stands at the first idle host. But which host becomes busy is decided by
  what the worker finds in \<^verbatim>\<open>i\<close> later. With the hosts 0, 1 and 2 busy, 3 and 4 idle
  and one client in the queue, the tick starts a worker at \<^verbatim>\<open>i = 3\<close>; the loop of the
  table then binds \<^verbatim>\<open>i\<close> to 0, and a worker that reads it now sets the flag of host 0,
  which is set already: no host becomes busy, and the hosts 3 and 4 both stay idle.
\<close>

theorem late_bound_host_index:
  "run [Generate_client 6 (\<lambda>i. 10 - i),
        Tick, Worker_begin 0, Tick, Worker_begin 1, Tick, Worker_begin 2, Tick] init
     = Inr late_state \<and>
   idle_host [True, True, True, False, False] = Some 3 \<and>
   last (threads late_state) = (3, 1) \<and>
   lambda_status_index 3 late_state = [3, 0] \<and>
   step_proc_pb_begin 0 late_state = Inr late_state \<and>
   status_list late_state = [True, True, True, False, False]"
  using run_late_state
  by (simp add: lambda_status_index_def step_proc_pb_begin_def del: run.simps)

text \<open>
  C6. A client leaves the queue in the very tick that takes its last file. No entry of a
  reachable state has an empty list of files; a tick from a reachable state succeeds, and
  an entry is missing afterwards if and only if the worker started in this tick was
  started for it and it had exactly one file. Every entry that is still there has lost
  its first file if the worker was started for it, and has kept its files otherwise.
\<close>

theorem removed_with_last_file:
  assumes "run es init = Inr st"
  shows "(\<forall>c \<in> set (clients_list st). files c \<noteq> []) \<and>
         (\<exists>st'. update st = Inr st' \<and>
            (\<forall>c' \<in> set (clients_list st'). files c' \<noteq> []) \<and>
            (\<forall>c \<in> set (clients_list st).
               (client_id c \<notin> client_id ` set (clients_list st')) =
               ((\<exists>i. threads st' = threads st @ [(i, client_id c)]) \<and> length (files c) = 1)) \<and>
            (\<forall>c' \<in> set (clients_list st'). \<exists>c \<in> set (clients_list st).
               client_id c' = client_id c \<and>
               files c' = (if \<exists>i. threads st' = threads st @ [(i, client_id c)]
                           then tl (files c) else files c)))"
proof -
  have inv: "queue_inv st" using assms by (rule reachable_inv)
  from queue_inv_update[OF inv] obtain st' where up: "update st = Inr st'" and inv': "queue_inv st'"
    by blast
  have "\<forall>c \<in> set (clients_list st). files c \<noteq> []"
    using inv by (simp add: queue_inv_def entry_ok_def)
  moreover have "\<forall>c' \<in> set (clients_list st'). files c' \<noteq> []"
    using inv' by (simp add: queue_inv_def entry_ok_def)
  ultimately show ?thesis using up update_files[OF inv up] by blast
qed

theorem removed_with_last_file_witness:
  "run [Generate_client 2 (\<lambda>_. 5)] init = Inr one_client \<and>
   update one_client = Inr served_out \<and>
   map files (clients_list one_client) = [[5]] \<and>
   clients_list served_out = [] \<and>
   threads served_out = threads one_client @ [(0, 1)] \<and>
   run [Generate_client 3 (\<lambda>i. 10 - i)] init = Inr two_files \<and>
   update two_files = Inr one_file_left \<and>
   map files (clients_list two_files) = [[8, 9]] \<and>
   map files (clients_list one_file_left) = [[9]]"
  using removed_with_last_file[OF run_one_client] removed_with_last_file[OF run_two_files]
    run_one_client update_one_client run_two_files update_two_files
  by (simp del: run.simps)

text \<open>
  C7. The files of every queued client are in ascending order at all times: in every
  reachable state, for the entry an insertion appends, and after a tick, where the files
  of an entry are what they were or what they were without their first element, which is
  not greater than any file that remains. Nothing is sorted again.
\<close>

theorem files_stay_sorted:
  assumes "run es init = Inr st"
  shows "(\<forall>c \<in> set (clients_list st). sorted (files c)) \<and>
         (\<forall>k file_size st'. insert_new_client k file_size st = Inr st' \<longrightarrow>
            sorted (files (last (clients_list st')))) \<and>
         (\<exists>st'. update st = Inr st' \<and>
            (\<forall>c' \<in> set (clients_list st'). sorted (files c') \<and>
               (\<exists>c \<in> set (clients_list st). client_id c' = client_id c \<and>
                  (files c' = files c \<or>
                   (\<exists>f. files c = f # files c' \<and> (\<forall>g \<in> set (files c'). f \<le> g))))))"
proof -
  have inv: "queue_inv st" using assms by (rule reachable_inv)
  from queue_inv_update[OF inv] obtain st' where up: "update st = Inr st'" and inv': "queue_inv st'"
    by blast
  have 1: "\<forall>c \<in> set (clients_list st). sorted (files c)"
    using inv by (simp add: queue_inv_def entry_ok_def)
  have 2: "sorted (files (last (clients_list st')))"
    if "insert_new_client k file_size st = Inr st'" for k file_size st'
    using insert_new_client_Inr[OF that] by simp
  have 3: "sorted (files c') \<and>
       (\<exists>c \<in> set (clients_list st). client_id c' = client_id c \<and>
          (files c' = files c \<or>
           (\<exists>f. files c = f # files c' \<and> (\<forall>g \<in> set (files c'). f \<le> g))))"
    if c': "c' \<in> set (clients_list st')" for c'
  proof -
    have s: "sorted (files c')" using inv' c' by (simp add: queue_inv_def entry_ok_def)
    from update_files(1)[OF inv up] c' obtain c where
      c: "c \<in> set (clients_list st)" "client_id c' = client_id c"
        "files c' = files c \<or> files c' = tl (files c)"
      by (metis (full_types))
    have ok: "files c \<noteq> []" "sorted (files c)"
      using inv c(1) by (simp_all add: queue_inv_def entry_ok_def)
    have "files c' = files c \<or>
           (\<exists>f. files c = f # files c' \<and> (\<forall>g \<in> set (files c'). f \<le> g))"
    proof (cases "files c' = files c")
      case True
      then show ?thesis by simp
    next
      case False
      then have t: "files c' = tl (files c)" using c(3) by simp
      obtain f fs where ffs: "files c = f # fs" using ok(1) by (cases "files c") auto
      then show ?thesis using t ok(2) by auto
    qed
    then show ?thesis using s c(1,2) by blast
  qed
  show ?thesis using 1 2 3 up by blast
qed

theorem files_stay_sorted_witness:
  "run [Generate_client 3 (\<lambda>i. 10 - i)] init = Inr two_files \<and>
   update two_files = Inr one_file_left \<and>
   map files (clients_list two_files) = [[8, 9]] \<and>
   map files (clients_list one_file_left) = [[9]] \<and>
   sorted [8, 9 :: int] \<and> sorted [9 :: int]"
  using files_stay_sorted[OF run_two_files] run_two_files update_two_files
  by (simp del: run.simps)

text \<open>
  C8, as stated, fails. The claim has every input with a queue size or a first file that
  is not positive rejected. Nothing in the expression checks its arguments: the errors
  are those of the division and of \<^verbatim>\<open>math.log\<close>, and for a negative queue size with a
  negative file the quotient is positive and a value is returned.
\<close>

theorem rejects_nonpositive_counterexample:
  "new_coefficient (- 1) 0 [- 5] = Inr (log (1 / 2) 5)"
  by (simp add: new_coefficient_eq)

text \<open>
  C8, amended. For integers of at most 300 decimal digits, where no operation leaves the
  range of a double: the expression raises \<^verbatim>\<open>ZeroDivisionError\<close> for the queue size 0,
  and the math domain error of \<^verbatim>\<open>math.log\<close> when the first file is 0 or has the opposite
  sign of the queue size; in every other case, among them both negative and both at least
  1, it returns the value of the formula.
\<close>

theorem coefficient_domain:
  assumes "\<bar>n\<bar> \<le> 10 ^ 300" and "\<bar>t\<bar> \<le> 10 ^ 300" and "\<bar>v\<bar> \<le> 10 ^ 300"
  shows "new_coefficient n t (v # fs) =
     (if n = 0 then Inl ZeroDivisionError
      else if v = 0 \<or> (v < 0 \<and> 0 < n) \<or> (0 < v \<and> n < 0) then Inl ValueError
      else Inr (1 / real_of_int n * real_of_int t
                + log (1 / 2) (real_of_int v / real_of_int n))) \<and>
   (1 \<le> n \<and> 1 \<le> v \<longrightarrow>
      new_coefficient n t (v # fs) =
        Inr (1 / real_of_int n * real_of_int t + log (1 / 2) (real_of_int v / real_of_int n)))"
proof -
  have "(real_of_int v / real_of_int n \<le> 0) = (v = 0 \<or> (v < 0 \<and> 0 < n) \<or> (0 < v \<and> n < 0))"
    if "n \<noteq> 0"
    using that by (auto simp: divide_le_0_iff)
  then show ?thesis by (auto simp: new_coefficient_eq)
qed

theorem coefficient_domain_witness:
  "\<bar>1 :: int\<bar> \<le> 10 ^ 300 \<and> \<bar>0 :: int\<bar> \<le> 10 ^ 300 \<and> \<bar>5 :: int\<bar> \<le> 10 ^ 300 \<and>
   new_coefficient 1 0 [5] = Inr (1 / 1 * 0 + log (1 / 2) (5 / 1)) \<and>
   new_coefficient 0 0 [5] = Inl ZeroDivisionError \<and>
   new_coefficient (- 1) 0 [5] = Inl ValueError \<and>
   new_coefficient 1 0 [0] = Inl ValueError \<and>
   new_coefficient 1 0 [- 5] = Inl ValueError \<and>
   new_coefficient (- 1) 0 [- 5] = Inr (1 / (- 1) * 0 + log (1 / 2) (- 5 / - 1))"
proof -
  have b: "\<bar>1 :: int\<bar> \<le> 10 ^ 300" "\<bar>0 :: int\<bar> \<le> 10 ^ 300" "\<bar>5 :: int\<bar> \<le> 10 ^ 300"
    "\<bar>- 1 :: int\<bar> \<le> 10 ^ 300" "\<bar>- 5 :: int\<bar> \<le> 10 ^ 300"
    by simp_all
  show ?thesis
    using b(1,2,3)
      coefficient_domain[OF b(1) b(2) b(3), of "[]"] coefficient_domain[OF b(2) b(2) b(3), of "[]"]
      coefficient_domain[OF b(4) b(2) b(3), of "[]"] coefficient_domain[OF b(1) b(2) b(2), of "[]"]
      coefficient_domain[OF b(1) b(2) b(5), of "[]"] coefficient_domain[OF b(4) b(2) b(5), of "[]"]
    by simp
qed

text \<open>
  C9. After every operation that changes the queue the counter \<open>num_clients\<close> is the
  number of entries of \<open>clients_list\<close>: in every state a run reaches, after an insertion
  into such a state (which adds one entry), and after a tick, which never fails there.
\<close>

theorem num_clients_is_queue_length:
  assumes "run es init = Inr st"
  shows "num_clients st = int (length (clients_list st)) \<and>
         (\<forall>k file_size st'. insert_new_client k file_size st = Inr st' \<longrightarrow>
            num_clients st' = int (length (clients_list st')) \<and>
            length (clients_list st') = length (clients_list st) + 1) \<and>
         (\<exists>st'. update st = Inr st' \<and> num_clients st' = int (length (clients_list st')))"
proof -
  have inv: "queue_inv st" using assms by (rule reachable_inv)
  have "num_clients st' = int (length (clients_list st')) \<and>
        length (clients_list st') = length (clients_list st) + 1"
    if "insert_new_client k file_size st = Inr st'" for k file_size st'
    using queue_inv_insert[OF inv that] insert_new_client_Inr[OF that]
    by (simp add: queue_inv_def)
  moreover have "\<exists>st'. update st = Inr st' \<and> num_clients st' = int (length (clients_list st'))"
    using queue_inv_update[OF inv] by (auto simp: queue_inv_def)
  ultimately show ?thesis using inv by (simp add: queue_inv_def)
qed

theorem num_clients_is_queue_length_witness:
  "run [Generate_client 2 (\<lambda>_. 5)] init = Inr one_client \<and>
   num_clients one_client = int (length (clients_list one_client)) \<and>
   update one_client = Inr served_out \<and>
   num_clients served_out = int (length (clients_list served_out))"
  using num_clients_is_queue_length[OF run_one_client] run_one_client update_one_client
  by (simp del: run.simps)

text \<open>
  C10. The coefficient a client gets at its insertion is computed with a queue size that
  counts the client itself: inserted into a reachable queue of \<open>k\<close> entries, its
  coefficient is the value of the formula for the divisor \<open>k + 1\<close> and the time 0,
  and it is not what the formula gives for the divisor \<open>k\<close> (an error for
  \<open>k = 0\<close>, another value otherwise).
\<close>

theorem insertion_divides_by_new_size:
  assumes "run es init = Inr st" and "insert_new_client k file_size st = Inr st'"
  shows "\<exists>c. clients_list st' = clients_list st @ [c] \<and>
           new_coefficient (int (length (clients_list st)) + 1) 0 (files c) = Inr (coefficient c) \<and>
           coefficient c =
             log (1 / 2) (real_of_int (hd (files c)) / (real (length (clients_list st)) + 1)) \<and>
           new_coefficient (int (length (clients_list st))) 0 (files c) \<noteq> Inr (coefficient c)"
proof -
  have inv: "queue_inv st" using assms(1) by (rule reachable_inv)
  define fs where "fs = sort (map file_size [1..k - 1])"
  define n where "n = length (clients_list st)"
  define c where "c = \<lparr>client_id = next_id st, files = fs, time = 0,
      coefficient = log (1 / 2) (real_of_int (hd fs) / real_of_int (num_clients st + 1))\<rparr>"
  note r = insert_new_client_Inr[OF assms(2), folded fs_def]
  have nc: "num_clients st = int n" using inv by (simp add: queue_inv_def n_def)
  have pos: "0 < hd fs" using r nc by (simp add: zero_less_divide_iff)
  obtain v vs where fs: "fs = v # vs" using r by (cases fs) auto
  have 1: "clients_list st' = clients_list st @ [c]" using r by (simp add: c_def)
  have 2: "new_coefficient (int n + 1) 0 (files c) = Inr (coefficient c)"
    using pos fs nc by (simp add: new_coefficient_eq c_def not_le zero_less_divide_iff)
  have 3: "coefficient c = log (1 / 2) (real_of_int (hd (files c)) / (real n + 1))"
    using nc by (simp add: c_def)
  have 4: "new_coefficient (int n) 0 (files c) \<noteq> Inr (coefficient c)"
  proof (cases "n = 0")
    case True
    then show ?thesis by (simp add: new_coefficient_eq)
  next
    case False
    have vpos: "0 < real_of_int v" using pos fs by simp
    have npos: "0 < real n" using False by simp
    have "0 < real_of_int v / real n" using vpos npos by (rule divide_pos_pos)
    then have e: "new_coefficient (int n) 0 (v # vs) = Inr (log (1 / 2) (real_of_int v / real n))"
      using False by (simp add: new_coefficient_eq not_le)
    have "log (1 / 2) (real_of_int v / real n) \<noteq> log (1 / 2) (real_of_int v / (real n + 1))"
    proof
      assume a: "log (1 / 2) (real_of_int v / real n) = log (1 / 2) (real_of_int v / (real n + 1))"
      have "real_of_int v / real n = real_of_int v / (real n + 1)"
        by (rule log_half_inj[OF _ _ a]) (use vpos npos in \<open>simp_all add: divide_pos_pos\<close>)
      then show False using vpos by simp
    qed
    moreover have "coefficient c = log (1 / 2) (real_of_int v / (real n + 1))"
      using 3 by (simp add: c_def fs)
    moreover have "files c = v # vs" by (simp add: c_def fs)
    ultimately show ?thesis using e by simp
  qed
  show ?thesis using 1 2 3 4 unfolding n_def by blast
qed

theorem insertion_divides_by_new_size_witness:
  "run [Generate_client 2 (\<lambda>_. 5)] init = Inr one_client \<and>
   insert_new_client 3 (\<lambda>i. 10 - i) one_client =
     Inr (one_client\<lparr>num_clients := 2, next_id := 3,
           clients_list := clients_list one_client @
             [\<lparr>client_id = 2, files = [8, 9], time = 0, coefficient = log (1 / 2) (8 / 2)\<rparr>]\<rparr>) \<and>
   new_coefficient 2 0 [8, 9] = Inr (log (1 / 2) (8 / 2)) \<and>
   new_coefficient 1 0 [8, 9] \<noteq> Inr (log (1 / 2) (8 / 2))"
proof -
  have i: "insert_new_client 3 (\<lambda>i. 10 - i) one_client =
     Inr (one_client\<lparr>num_clients := 2, next_id := 3,
           clients_list := clients_list one_client @
             [\<lparr>client_id = 2, files = [8, 9], time = 0, coefficient = log (1 / 2) (8 / 2)\<rparr>]\<rparr>)"
    by (simp add: insert_new_client_def new_coefficient_eq upto.simps)
  from insertion_divides_by_new_size[OF run_one_client i]
  have "new_coefficient 2 0 [8, 9] = Inr (log (1 / 2) (8 / 2)) \<and>
        new_coefficient 1 0 [8, 9] \<noteq> Inr (log (1 / 2) (8 / 2))"
    by simp
  then show ?thesis using run_one_client i by (simp del: run.simps)
qed

end
